theory Spec2Isabelle
  imports Main
begin

section \<open>Data model of \<open>lily-bot.py\<close>\<close>

text \<open>
  The bot keeps its whole state in module-level globals (lines 26--33):
  \<^verbatim>\<open>active_streams = {}\<close>, \<^verbatim>\<open>youtube_client = None\<close>, \<^verbatim>\<open>song_list = {}\<close>,
  \<^verbatim>\<open>current_idx = 0\<close>, \<^verbatim>\<open>played_idx = 0\<close>.
  They are gathered in one record that every handler receives and returns.
  Python integers are unbounded, hence \<open>int\<close>. A queue entry is the two-element list
  \<^verbatim>\<open>[title, requester]\<close>, modelled as a pair. Dictionaries are partial maps.
  Of \<^verbatim>\<open>youtube_client\<close> only its truth value is read by the handlers modelled here.
\<close>

type_synonym channel_id = int
type_synonym video_id = string
type_synonym song = "string \<times> string"

record bot_state =
  youtube_client :: bool
  active_streams :: "channel_id \<rightharpoonup> video_id"
  song_list :: "int \<rightharpoonup> song"
  current_idx :: int
  played_idx :: int

definition initial_state :: "bool \<Rightarrow> bot_state" where
  "initial_state configured =
     \<lparr>youtube_client = configured, active_streams = Map.empty,
      song_list = Map.empty, current_idx = 0, played_idx = 0\<rparr>"

text \<open>The command context; the handlers read only \<^verbatim>\<open>ctx.channel.id\<close> from it.\<close>

record ctx =
  channel :: channel_id

text \<open>\<^verbatim>\<open>len(d)\<close> of a dictionary, and the truth value of \<^verbatim>\<open>not d\<close>.\<close>

definition len :: "('k \<rightharpoonup> 'v) \<Rightarrow> int" where
  "len d = int (card (dom d))"

definition is_empty :: "('k \<rightharpoonup> 'v) \<Rightarrow> bool" where
  "is_empty d = (dom d = {})"

datatype py_error = KeyError | IndexError

text \<open>\<^verbatim>\<open>d[k]\<close> raises \<^verbatim>\<open>KeyError\<close> on a missing key.\<close>

definition getitem :: "('k \<rightharpoonup> 'v) \<Rightarrow> 'k \<Rightarrow> py_error + 'v" where
  "getitem d k = (case d k of None \<Rightarrow> Inl KeyError | Some v \<Rightarrow> Inr v)"

text \<open>
  What a handler sends to the channel. Plain notices are one constructor each; an embed
  is its list of fields (in the order of the \<^verbatim>\<open>add_field\<close> calls) and its footer. The
  formatted strings themselves belong to the presentation layer, so a field keeps the
  values that are interpolated into it.
\<close>

datatype field =
    No_Song_In_Queue
  | Not_Played_Yet song
  | Current_Song song
  | Queue_Empty
  | Queue_Status_Empty
  | Now_Playing song
  | Next_Song song
  | No_Next_Song
  | Already_Last_Song
  | Gap int
  | Played_Row int song
  | Playing_Row int song
  | Upcoming_Row int song
  | Deleted_Song int song
  | Remaining_Songs int

datatype footer = No_Footer | Played_Total int int | No_Songs_Footer

datatype reply =
    Api_Not_Configured
  | Invalid_Url
  | Already_Monitoring
  | Starting_Monitor video_id
  | No_Active_Monitoring
  | Stopped_Monitoring
  | Currently_Monitoring video_id
  | Request_Embed string string string
  | Queue_Is_Empty
  | Invalid_Song_Id int
  | Song_Not_Found int
  | Cannot_Delete_Current
  | Embed "field list" footer

section \<open>Appending requests\<close>

text \<open>
  Both producers append with the same two statements (lines 122--123 and 317--319):
  \<^verbatim>\<open>current_idx += 1; song_list[current_idx] = [title, requester]\<close>.
\<close>

definition append_song :: "song \<Rightarrow> bot_state \<Rightarrow> bot_state" where
  "append_song entry s =
     (let s1 = s\<lparr>current_idx := current_idx s + 1\<rparr>
      in s1\<lparr>song_list := (song_list s1)(current_idx s1 \<mapsto> entry)\<rparr>)"

section \<open>The \<open>next\<close> command\<close>

text \<open>
  Lines 248--307. \<^verbatim>\<open>played_idx\<close> is assigned before the entries are read, so a
  \<^verbatim>\<open>KeyError\<close> leaves the assignment in place.
\<close>

definition next_song :: "ctx \<Rightarrow> bot_state \<Rightarrow> (py_error + reply) \<times> bot_state" where
  "next_song c s =
     (if is_empty (song_list s) then (Inr (Embed [Queue_Empty] No_Footer), s)
      else if played_idx s = 0 \<and> current_idx s \<ge> 1 then
        (let s1 = s\<lparr>played_idx := 1\<rparr> in
         (case getitem (song_list s1) (played_idx s1) of
            Inl e \<Rightarrow> Inl e
          | Inr cur \<Rightarrow>
              if current_idx s1 > 1 then
                (case getitem (song_list s1) (played_idx s1 + 1) of
                   Inl e \<Rightarrow> Inl e
                 | Inr nxt \<Rightarrow> Inr (Embed [Now_Playing cur, Next_Song nxt] No_Footer))
              else Inr (Embed [Now_Playing cur] No_Footer),
          s1))
      else if played_idx s < current_idx s then
        (let s1 = s\<lparr>played_idx := played_idx s + 1\<rparr> in
         (case getitem (song_list s1) (played_idx s1) of
            Inl e \<Rightarrow> Inl e
          | Inr cur \<Rightarrow>
              if played_idx s1 < current_idx s1 then
                (case getitem (song_list s1) (played_idx s1 + 1) of
                   Inl e \<Rightarrow> Inl e
                 | Inr nxt \<Rightarrow> Inr (Embed [Now_Playing cur, Next_Song nxt] No_Footer))
              else Inr (Embed [Now_Playing cur, No_Next_Song] No_Footer),
          s1))
      else (Inr (Embed [Already_Last_Song] No_Footer), s))"

section \<open>The \<open>delete\<close> command\<close>

text \<open>
  The renumbering loop of lines 466--476: one iteration for \<^verbatim>\<open>old_id\<close>, on the triple
  \<^verbatim>\<open>(song_list, new_id, new_played_id)\<close>.
\<close>

definition renumber_step ::
  "(int \<rightharpoonup> song) \<Rightarrow> int \<Rightarrow> int \<Rightarrow> (int \<rightharpoonup> song) \<times> int \<times> int \<Rightarrow> (int \<rightharpoonup> song) \<times> int \<times> int"
where
  "renumber_step old_song_list old_played_id old_id st =
     (case st of (new_list, new_id, new_played_id) \<Rightarrow>
        (case old_song_list old_id of
           None \<Rightarrow> (new_list, new_id, new_played_id)
         | Some entry \<Rightarrow>
             (new_list(new_id \<mapsto> entry),
              new_id + 1,
              if old_id = old_played_id then new_id
              else if old_id < old_played_id \<and> new_played_id = 0 then new_id
              else new_played_id)))"

definition renumber :: "(int \<rightharpoonup> song) \<Rightarrow> int \<Rightarrow> int \<Rightarrow> (int \<rightharpoonup> song) \<times> int \<times> int" where
  "renumber old_song_list old_played_id cur =
     fold (renumber_step old_song_list old_played_id) [1..cur] (Map.empty, 1, 0)"

text \<open>Lines 421--502. The four early returns send a notice and change nothing.\<close>

definition delete_song :: "ctx \<Rightarrow> int \<Rightarrow> bot_state \<Rightarrow> reply \<times> bot_state" where
  "delete_song c song_id s =
     (if is_empty (song_list s) then (Queue_Is_Empty, s)
      else if song_id < 1 \<or> song_id > current_idx s then (Invalid_Song_Id (current_idx s), s)
      else case song_list s song_id of
        None \<Rightarrow> (Song_Not_Found song_id, s)
      | Some deleted_song \<Rightarrow>
          if song_id = played_idx s then (Cannot_Delete_Current, s)
          else
            (let s1 = s\<lparr>song_list := (song_list s)(song_id := None)\<rparr>;
                 s2 = (if song_id < played_idx s1
                       then s1\<lparr>played_idx := played_idx s1 - 1\<rparr> else s1);
                 s3 = (if \<not> is_empty (song_list s2) then
                         (case renumber (song_list s2) (played_idx s2) (current_idx s2) of
                            (new_list, new_id, new_played_id) \<Rightarrow>
                              s2\<lparr>song_list := new_list,
                                 current_idx := len new_list,
                                 played_idx := new_played_id\<rparr>)
                       else s2\<lparr>current_idx := 0, played_idx := 0\<rparr>)
             in (Embed [Deleted_Song song_id deleted_song,
                        Remaining_Songs (len (song_list s3))] No_Footer, s3)))"

section \<open>The read-only commands \<open>current_song\<close> and \<open>list_song\<close>\<close>

text \<open>Lines 212--246.\<close>

definition current_song :: "ctx \<Rightarrow> bot_state \<Rightarrow> (py_error + reply) \<times> bot_state" where
  "current_song c s =
     (if is_empty (song_list s) then (Inr (Embed [No_Song_In_Queue] No_Footer), s)
      else if played_idx s = 0 then
        (if current_idx s \<ge> 1 then
           (case getitem (song_list s) 1 of
              Inl e \<Rightarrow> (Inl e, s)
            | Inr entry \<Rightarrow> (Inr (Embed [Not_Played_Yet entry] No_Footer), s))
         else (Inr (Embed [No_Song_In_Queue] No_Footer), s))
      else
        (case getitem (song_list s) (played_idx s) of
           Inl e \<Rightarrow> (Inl e, s)
         | Inr entry \<Rightarrow> (Inr (Embed [Current_Song entry] No_Footer), s)))"

text \<open>
  Lines 347--376: the sequence numbers to display. \<^verbatim>\<open>range(a, b)\<close> is the interval
  list \<open>[a..b - 1]\<close>, empty when \<open>b \<le> a\<close>.
\<close>

definition songs_to_show :: "bot_state \<Rightarrow> int list" where
  "songs_to_show s =
     (let total_songs = len (song_list s) in
      if total_songs \<le> 24 then [1..current_idx s]
      else
        (let shown1 = (if played_idx s > 0
                       then [max 1 (played_idx s - 2)..played_idx s] else []);
             shown2 = shown1 @ (if played_idx s < current_idx s
                                then [played_idx s + 1..current_idx s] else [])
         in if int (length shown2) > 23 then
              (if played_idx s > 0 then
                 (let max_next_songs = min 22 (current_idx s - played_idx s)
                  in [played_idx s] @ [played_idx s + 1..played_idx s + max_next_songs])
               else (let max_songs = min 23 (current_idx s) in [1..max_songs]))
            else shown2))"

text \<open>Lines 382--411: the fields of one displayed song, then of all of them in order.\<close>

definition show_song :: "bot_state \<Rightarrow> bool \<Rightarrow> int \<Rightarrow> py_error + field list" where
  "show_song s show_gap song_id =
     (case getitem (song_list s) song_id of
        Inl e \<Rightarrow> Inl e
      | Inr entry \<Rightarrow>
          Inr ((if show_gap \<and> song_id = played_idx s \<and> played_idx s > 3
                then [Gap (played_idx s - 3)] else []) @
               [if song_id < played_idx s then Played_Row song_id entry
                else if song_id = played_idx s then Playing_Row song_id entry
                else Upcoming_Row song_id entry]))"

fun show_songs :: "bot_state \<Rightarrow> bool \<Rightarrow> int list \<Rightarrow> py_error + field list" where
  "show_songs s show_gap [] = Inr []"
| "show_songs s show_gap (song_id # rest) =
     (case show_song s show_gap song_id of
        Inl e \<Rightarrow> Inl e
      | Inr fs \<Rightarrow>
          (case show_songs s show_gap rest of
             Inl e \<Rightarrow> Inl e
           | Inr gs \<Rightarrow> Inr (fs @ gs)))"

text \<open>Lines 330--419.\<close>

definition list_song :: "ctx \<Rightarrow> bot_state \<Rightarrow> (py_error + reply) \<times> bot_state" where
  "list_song c s =
     (if is_empty (song_list s) then (Inr (Embed [Queue_Status_Empty] No_Songs_Footer), s)
      else
        (let total_songs = len (song_list s);
             show_gap = (total_songs > 24 \<and> played_idx s > 3)
         in case show_songs s show_gap (songs_to_show s) of
              Inl e \<Rightarrow> (Inl e, s)
            | Inr fs \<Rightarrow>
                (Inr (Embed fs (Played_Total (played_idx s) (len (song_list s)))), s)))"

section \<open>Strings\<close>

text \<open>
  A Python string is modelled as a list of characters. \<^verbatim>\<open>str.lower\<close> is modelled on
  the ASCII letters; the only use of it is the prefix test against \<^verbatim>\<open>'!req'\<close>, which
  other characters cannot influence.
\<close>

definition lower_char :: "char \<Rightarrow> char" where
  "lower_char c =
     (case map_of (zip ''ABCDEFGHIJKLMNOPQRSTUVWXYZ'' ''abcdefghijklmnopqrstuvwxyz'') c of
        None \<Rightarrow> c
      | Some l \<Rightarrow> l)"

definition lower :: "string \<Rightarrow> string" where
  "lower text = map lower_char text"

fun startswith :: "string \<Rightarrow> string \<Rightarrow> bool" where
  "startswith text [] = True"
| "startswith [] (p # ps) = False"
| "startswith (c # cs) (p # ps) = (c = p \<and> startswith cs ps)"

text \<open>\<^verbatim>\<open>text.split(sep)\<close> for a one-character separator: never an empty list.\<close>

fun py_split :: "char \<Rightarrow> string \<Rightarrow> string list" where
  "py_split sep [] = [[]]"
| "py_split sep (c # cs) =
     (if c = sep then [] # py_split sep cs
      else (case py_split sep cs of
              [] \<Rightarrow> [[c]]
            | part # parts \<Rightarrow> (c # part) # parts))"

text \<open>\<^verbatim>\<open>xs[i]\<close> for a non-negative index raises \<^verbatim>\<open>IndexError\<close> out of range.\<close>

definition index :: "'a list \<Rightarrow> nat \<Rightarrow> py_error + 'a" where
  "index xs i = (if i < length xs then Inr (xs ! i) else Inl IndexError)"

section \<open>The \<open>add\<close> command\<close>

text \<open>
  Lines 309--328. Both \<^verbatim>\<open>split\<close> results are read before \<^verbatim>\<open>current_idx\<close> is
  incremented, so an \<^verbatim>\<open>IndexError\<close> (no \<^verbatim>\<open>-\<close> in the argument) changes nothing.
\<close>

definition add :: "ctx \<Rightarrow> string \<Rightarrow> bot_state \<Rightarrow> (py_error + reply) \<times> bot_state" where
  "add c song s =
     (if channel c \<in> dom (active_streams s) then
        (case index (py_split CHR ''-'' song) 0 of
           Inl e \<Rightarrow> (Inl e, s)
         | Inr title \<Rightarrow>
             (let song_list_format = ''(Trakteer) - '' @ title in
              case index (py_split CHR ''-'' song) 1 of
                Inl e \<Rightarrow> (Inl e, s)
              | Inr nama_request \<Rightarrow>
                  (Inr (Request_Embed song_list_format nama_request ''Trakteer Request Chat''),
                   append_song (song_list_format, nama_request) s)))
      else (Inr No_Active_Monitoring, s))"

section \<open>The chat poller\<close>

text \<open>
  An item of a fetched page, with the three values read from it (lines 94, 103, 104).
\<close>

record chat_item =
  message_id :: string
  display_message :: string
  display_name :: string

text \<open>
  The body of the \<^verbatim>\<open>for item in response["items"]\<close> loop, lines 93--125, on the
  loop-local set \<^verbatim>\<open>processed_messages\<close> and the globals. The result also tells what
  was sent to the channel for this item, if anything.
\<close>

definition process_item ::
  "chat_item \<Rightarrow> string set \<times> bot_state \<Rightarrow> reply option \<times> string set \<times> bot_state"
where
  "process_item item st =
     (case st of (processed_messages, s) \<Rightarrow>
        if message_id item \<in> processed_messages then (None, processed_messages, s)
        else
          (let processed1 = insert (message_id item) processed_messages;
               message_text = display_message item;
               author = display_name item
           in if \<not> startswith (lower message_text) ''!req'' then (None, processed1, s)
              else
                (let song_list_temp = drop 5 message_text
                 in (Some (Request_Embed message_text author ''YouTube Live Chat''),
                     processed1,
                     append_song (song_list_temp, author) s))))"

text \<open>The whole \<^verbatim>\<open>for\<close> loop over one page, keeping what was sent in order.\<close>

fun process_items ::
  "chat_item list \<Rightarrow> string set \<times> bot_state \<Rightarrow> reply list \<times> string set \<times> bot_state"
where
  "process_items [] st = ([], st)"
| "process_items (item # items) st =
     (case process_item item st of
        (sent, st1) \<Rightarrow>
          (case process_items items st1 of
             (sents, st2) \<Rightarrow> ((case sent of None \<Rightarrow> [] | Some r \<Rightarrow> [r]) @ sents, st2)))"

text \<open>The loop condition of line 86 and the clean-up of lines 138--139.\<close>

definition poller_alive :: "channel_id \<Rightarrow> video_id \<Rightarrow> bot_state \<Rightarrow> bool" where
  "poller_alive ch vid s = (active_streams s ch = Some vid)"

definition poller_cleanup :: "channel_id \<Rightarrow> bot_state \<Rightarrow> bot_state" where
  "poller_cleanup ch s =
     (if ch \<in> dom (active_streams s)
      then s\<lparr>active_streams := (active_streams s)(ch := None)\<rparr> else s)"

section \<open>Sessions: \<open>start_live_chat\<close>, \<open>stop_live_chat\<close>, \<open>live_status\<close>\<close>

text \<open>
  Lines 35--50. Each pattern is a literal followed by the group
  \<^verbatim>\<open>([a-zA-Z0-9_-]{11})\<close>, behind optional non-capturing prefixes
  (\<^verbatim>\<open>https?://\<close>, \<^verbatim>\<open>www\.\<close>). \<^verbatim>\<open>re.search\<close> returns the leftmost match. An
  optional prefix only moves the start of a match to the left by at most twelve
  characters, and two occurrences of a literal followed by eleven identifier characters
  start at least fifteen characters apart (the literal contains \<^verbatim>\<open>.\<close> and \<^verbatim>\<open>/\<close>,
  which are not identifier characters), so the group of the leftmost match is the
  identifier after the first such occurrence of the literal.
\<close>

definition id_char :: "char \<Rightarrow> bool" where
  "id_char c =
     (let n = (of_char c :: nat)
      in (97 \<le> n \<and> n \<le> 122) \<or> (65 \<le> n \<and> n \<le> 90) \<or> (48 \<le> n \<and> n \<le> 57)
         \<or> c = CHR ''_'' \<or> c = CHR ''-'')"

definition match_id_at :: "string \<Rightarrow> string \<Rightarrow> string option" where
  "match_id_at literal text =
     (if startswith text literal then
        (let rest = drop (length literal) text
         in if 11 \<le> length rest \<and> list_all id_char (take 11 rest)
            then Some (take 11 rest) else None)
      else None)"

fun search_id :: "string \<Rightarrow> string \<Rightarrow> string option" where
  "search_id literal [] = match_id_at literal []"
| "search_id literal (c # cs) =
     (case match_id_at literal (c # cs) of
        Some v \<Rightarrow> Some v
      | None \<Rightarrow> search_id literal cs)"

definition patterns :: "string list" where
  "patterns =
     [''youtube.com/watch?v='', ''youtube.com/live/'', ''youtu.be/'', ''youtube.com/embed/'']"

fun first_match :: "string list \<Rightarrow> string \<Rightarrow> string option" where
  "first_match [] url = None"
| "first_match (pattern # rest) url =
     (case search_id pattern url of
        Some v \<Rightarrow> Some v
      | None \<Rightarrow> first_match rest url)"

definition extract_youtube_id :: "string \<Rightarrow> string option" where
  "extract_youtube_id url = first_match patterns url"

text \<open>
  Lines 160--190. The reset of the queue at lines 180--182 is commented out in the
  source. \<^verbatim>\<open>create_task\<close> only schedules the poller, whose effects on the state are
  those of \<open>process_item\<close> and \<open>poller_cleanup\<close>.
\<close>

definition start_live_chat :: "ctx \<Rightarrow> string \<Rightarrow> bot_state \<Rightarrow> reply \<times> bot_state" where
  "start_live_chat c url s =
     (if \<not> youtube_client s then (Api_Not_Configured, s)
      else case extract_youtube_id url of
        None \<Rightarrow> (Invalid_Url, s)
      | Some video_id \<Rightarrow>
          if channel c \<in> dom (active_streams s) then (Already_Monitoring, s)
          else (Starting_Monitor video_id,
                s\<lparr>active_streams := (active_streams s)(channel c \<mapsto> video_id)\<rparr>))"

text \<open>Lines 192--201.\<close>

definition stop_live_chat :: "ctx \<Rightarrow> bot_state \<Rightarrow> reply \<times> bot_state" where
  "stop_live_chat c s =
     (if channel c \<notin> dom (active_streams s) then (No_Active_Monitoring, s)
      else (Stopped_Monitoring, s\<lparr>active_streams := (active_streams s)(channel c := None)\<rparr>))"

text \<open>Lines 203--210.\<close>

definition live_status :: "ctx \<Rightarrow> bot_state \<Rightarrow> reply \<times> bot_state" where
  "live_status c s =
     (case active_streams s (channel c) of
        Some video_id \<Rightarrow> (Currently_Monitoring video_id, s)
      | None \<Rightarrow> (No_Active_Monitoring, s))"

section \<open>Runs of the bot\<close>

text \<open>
  Everything that can change the globals: a command arriving in some channel, a poller
  handling one chat item (with whatever its local set of processed identifiers is at
  that moment), and a poller leaving its loop. The coroutines only yield at
  \<^verbatim>\<open>await\<close>, which never sits between two assignments to the queue globals of one
  handler, so each event acts atomically on the state.
\<close>

datatype event =
    Start_Live_Chat ctx string
  | Stop_Live_Chat ctx
  | Live_Status ctx
  | Current_Song_Cmd ctx
  | Next_Cmd ctx
  | Add_Cmd ctx string
  | List_Song_Cmd ctx
  | Delete_Cmd ctx int
  | Chat_Item "string set" chat_item
  | Poller_Exit channel_id

fun apply_event :: "event \<Rightarrow> bot_state \<Rightarrow> bot_state" where
  "apply_event (Start_Live_Chat c url) s = snd (start_live_chat c url s)"
| "apply_event (Stop_Live_Chat c) s = snd (stop_live_chat c s)"
| "apply_event (Live_Status c) s = snd (live_status c s)"
| "apply_event (Current_Song_Cmd c) s = snd (current_song c s)"
| "apply_event (Next_Cmd c) s = snd (next_song c s)"
| "apply_event (Add_Cmd c song) s = snd (add c song s)"
| "apply_event (List_Song_Cmd c) s = snd (list_song c s)"
| "apply_event (Delete_Cmd c song_id) s = snd (delete_song c song_id s)"
| "apply_event (Chat_Item processed item) s = snd (snd (process_item item (processed, s)))"
| "apply_event (Poller_Exit ch) s = poller_cleanup ch s"

definition run :: "event list \<Rightarrow> bot_state \<Rightarrow> bot_state" where
  "run events s = fold apply_event events s"

section \<open>Specification-level notions\<close>

text \<open>
  The invariants of the queue, stated on the globals: the keys of \<^verbatim>\<open>song_list\<close> are
  exactly \<open>1..N\<close> for \<open>N\<close> the number of entries, the counter \<^verbatim>\<open>current_idx\<close>
  equals \<open>N\<close>, and \<^verbatim>\<open>played_idx\<close> lies between \<open>0\<close> and \<open>N\<close>.
\<close>

definition dense :: "bot_state \<Rightarrow> bool" where
  "dense s = (dom (song_list s) = {1..len (song_list s)})"

definition counter_ok :: "bot_state \<Rightarrow> bool" where
  "counter_ok s = (current_idx s = len (song_list s))"

definition bounds_ok :: "bot_state \<Rightarrow> bool" where
  "bounds_ok s = (0 \<le> played_idx s \<and> played_idx s \<le> len (song_list s))"

definition queue_inv :: "bot_state \<Rightarrow> bool" where
  "queue_inv s = (dense s \<and> counter_ok s \<and> bounds_ok s)"

text \<open>The queue read in order of sequence number.\<close>

definition entries :: "bot_state \<Rightarrow> song option list" where
  "entries s = map (song_list s) [1..len (song_list s)]"

text \<open>The reply of a \<^verbatim>\<open>delete\<close> that removed an entry (lines 487--502).\<close>

definition deleted :: "reply \<Rightarrow> bool" where
  "deleted r = (case r of Embed (Deleted_Song k e # fs) ft \<Rightarrow> True | _ \<Rightarrow> False)"

text \<open>The entry that a reply of \<^verbatim>\<open>next\<close> announces as now playing, if any.\<close>

definition now_playing :: "py_error + reply \<Rightarrow> song option" where
  "now_playing r = (case r of Inr (Embed (Now_Playing e # fs) ft) \<Rightarrow> Some e | _ \<Rightarrow> None)"

text \<open>
  Closed forms for the renumbering loop after it has handled the old numbers \<open>1..j\<close>,
  when entry \<open>k\<close> has been removed: the compacted dictionary, the next free number,
  and the value of \<^verbatim>\<open>new_played_id\<close> for \<^verbatim>\<open>old_played_id = p\<close>.
\<close>

definition compact :: "(int \<rightharpoonup> song) \<Rightarrow> int \<Rightarrow> int \<Rightarrow> (int \<rightharpoonup> song)" where
  "compact m k n = (\<lambda>i. if 1 \<le> i \<and> i < n then m (if i < k then i else i + 1) else None)"

definition new_id_after :: "int \<Rightarrow> int \<Rightarrow> int" where
  "new_id_after k j = (if j < k then j + 1 else j)"

definition played_after :: "int \<Rightarrow> int \<Rightarrow> int \<Rightarrow> int" where
  "played_after k p j =
     (if 1 \<le> p \<and> p \<le> j \<and> p \<noteq> k then (if p < k then p else p - 1)
      else if (k \<noteq> 1 \<and> 1 \<le> j \<and> 1 < p) \<or> (k = 1 \<and> 2 \<le> j \<and> 2 < p) then 1 else 0)"

text \<open>
  The statements of the specification that the code is compared with. The request marker
  is \<^verbatim>\<open>!req\<close>; stripping it leaves the remainder after its four characters.
  Of one poller step, \<open>spec_forwarded\<close> says that the item is forwarded exactly when its
  lower-cased text starts with the marker, and \<open>spec_stored\<close> that the entry stored for
  a forwarded item (under the new counter value) has the stripped text as title and the
  author as requester; \<open>spec_forwarding\<close> is both together.
\<close>

definition request_marker :: string where
  "request_marker = ''!req''"

definition spec_strip_marker :: "string \<Rightarrow> string" where
  "spec_strip_marker text = drop (length request_marker) text"

definition spec_forwarded :: "chat_item \<Rightarrow> string set \<Rightarrow> bot_state \<Rightarrow> bool" where
  "spec_forwarded item processed s =
     ((fst (process_item item (processed, s)) \<noteq> None)
        = startswith (lower (display_message item)) request_marker)"

definition spec_stored :: "chat_item \<Rightarrow> string set \<Rightarrow> bot_state \<Rightarrow> bool" where
  "spec_stored item processed s =
     (case process_item item (processed, s) of
        (sent, processed1, s1) \<Rightarrow>
          if sent \<noteq> None
          then song_list s1 (current_idx s1)
                 = Some (spec_strip_marker (display_message item), display_name item)
          else True)"

definition spec_forwarding :: "chat_item \<Rightarrow> string set \<Rightarrow> bot_state \<Rightarrow> bool" where
  "spec_forwarding item processed s =
     (spec_forwarded item processed s \<and> spec_stored item processed s)"

text \<open>
  Isolation of scopes, as the specification states it for the \<^verbatim>\<open>add\<close> command: what
  \<^verbatim>\<open>current_song\<close> and \<^verbatim>\<open>list_song\<close> answer in scope \<open>c2\<close> is the same before and
  after an \<^verbatim>\<open>add\<close> issued in scope \<open>c1\<close>.
\<close>

definition spec_isolated :: "ctx \<Rightarrow> ctx \<Rightarrow> string \<Rightarrow> bot_state \<Rightarrow> bool" where
  "spec_isolated c1 c2 song s =
     (fst (current_song c2 (snd (add c1 song s))) = fst (current_song c2 s)
      \<and> fst (list_song c2 (snd (add c1 song s))) = fst (list_song c2 s))"

section \<open>Sample data\<close>

text \<open>
  The scenario of the specification: two requests arrive from the chat, then \<^verbatim>\<open>next\<close>
  is issued twice.
\<close>

definition song_a :: chat_item where
  "song_a = \<lparr>message_id = ''m1'', display_message = ''!req Song A'', display_name = ''Alice''\<rparr>"

definition song_b :: chat_item where
  "song_b = \<lparr>message_id = ''m2'', display_message = ''!REQ Song B'', display_name = ''Bob''\<rparr>"

definition here :: ctx where
  "here = \<lparr>channel = 1\<rparr>"

definition two_requests :: bot_state where
  "two_requests = run [Chat_Item {} song_a, Chat_Item {''m1''} song_b] (initial_state True)"

definition two_played :: bot_state where
  "two_played = run [Chat_Item {} song_a, Chat_Item {''m1''} song_b, Next_Cmd here, Next_Cmd here]
                  (initial_state True)"

text \<open>
  A request typed without a blank after the marker, a second channel, and the state after
  \<^verbatim>\<open>start_live_chat\<close> in the first channel.
\<close>

definition glued :: chat_item where
  "glued = \<lparr>message_id = ''m3'', display_message = ''!reqSong'', display_name = ''Al''\<rparr>"

definition there :: ctx where
  "there = \<lparr>channel = 2\<rparr>"

definition monitoring :: bot_state where
  "monitoring = snd (start_live_chat here ''https://youtu.be/dQw4w9WgXcQ'' (initial_state True))"

section \<open>The renumbering loop\<close>

lemma upto_snoc_nat: "[1..int (Suc j)] = [1..int j] @ [int j + 1]"
  using upto_rec2 [of 1 "int (Suc j)"] by (simp add: add.commute)

lemma compact_extend:
  assumes "j + 1 \<noteq> k" and "0 \<le> j" and "1 \<le> k" and "m (j + 1) = Some e"
  shows "(compact m k (new_id_after k j))(new_id_after k j \<mapsto> e) =
         compact m k (new_id_after k (j + 1))"
  using assms by (auto simp add: compact_def new_id_after_def fun_eq_iff)

lemma played_after_skip:
  assumes "0 \<le> j"
  shows "played_after (j + 1) p (j + 1) = played_after (j + 1) p j"
  using assms by (auto simp add: played_after_def)

lemma played_after_step:
  assumes "j + 1 \<noteq> k" and "0 \<le> j" and "1 \<le> k"
  shows "(if j + 1 = p then new_id_after k j
          else if j + 1 < p \<and> played_after k p j = 0 then new_id_after k j
          else played_after k p j) = played_after k p (j + 1)"
  using assms unfolding played_after_def new_id_after_def by (cases "j = 0") auto

lemma renumber_step_absent:
  assumes "0 \<le> j"
  shows "renumber_step (m(j + 1 := None)) p (j + 1)
           (compact m (j + 1) (new_id_after (j + 1) j), new_id_after (j + 1) j,
            played_after (j + 1) p j) =
         (compact m (j + 1) (new_id_after (j + 1) (j + 1)), new_id_after (j + 1) (j + 1),
          played_after (j + 1) p (j + 1))"
  using assms by (simp add: renumber_step_def played_after_skip new_id_after_def)

lemma renumber_step_present:
  assumes "j + 1 \<noteq> k" and "0 \<le> j" and "1 \<le> k" and "m (j + 1) = Some e"
  shows "renumber_step (m(k := None)) p (j + 1)
           (compact m k (new_id_after k j), new_id_after k j, played_after k p j) =
         (compact m k (new_id_after k (j + 1)), new_id_after k (j + 1), played_after k p (j + 1))"
proof -
  have "new_id_after k j + 1 = new_id_after k (j + 1)"
    using assms(1) by (simp add: new_id_after_def)
  then show ?thesis
    using assms by (simp add: renumber_step_def compact_extend played_after_step)
qed

lemma renumber_prefix:
  assumes "dom m = {1..N}" and "1 \<le> k" and "k \<le> N" and "int j \<le> N"
  shows "fold (renumber_step (m(k := None)) p) [1..int j] (Map.empty, 1, 0) =
           (compact m k (new_id_after k (int j)), new_id_after k (int j), played_after k p (int j))"
  using assms(4)
proof (induction j)
  case 0
  show ?case using assms(2) by (auto simp add: compact_def played_after_def new_id_after_def fun_eq_iff)
next
  case (Suc j)
  have "int j \<le> N" using Suc.prems by simp
  note IH = Suc.IH [OF this]
  have "int j + 1 \<in> dom m" using Suc.prems assms(1) by simp
  then obtain e where e: "m (int j + 1) = Some e" by auto
  have unroll: "fold (renumber_step (m(k := None)) p) [1..int (Suc j)] (Map.empty, 1, 0) =
      renumber_step (m(k := None)) p (int j + 1)
        (compact m k (new_id_after k (int j)), new_id_after k (int j), played_after k p (int j))"
    by (simp only: upto_snoc_nat fold_append fold_simps o_apply id_apply IH)
  have eq: "int (Suc j) = int j + 1" by simp
  have step: "renumber_step (m(k := None)) p (int j + 1)
        (compact m k (new_id_after k (int j)), new_id_after k (int j), played_after k p (int j)) =
      (compact m k (new_id_after k (int j + 1)), new_id_after k (int j + 1),
       played_after k p (int j + 1))"
  proof (cases "int j + 1 = k")
    case True
    then have k: "k = int j + 1" by simp
    show ?thesis unfolding k by (rule renumber_step_absent) simp
  next
    case False
    show ?thesis using False e assms(2) by (intro renumber_step_present) simp_all
  qed
  show ?case unfolding eq by (rule trans [OF unroll [unfolded eq] step])
qed

lemma renumber_closed:
  assumes "dom m = {1..N}" and "1 \<le> k" and "k \<le> N"
  shows "renumber (m(k := None)) p N = (compact m k N, N, played_after k p N)"
proof -
  have N: "int (nat N) = N" using assms by simp
  have "new_id_after k N = N" using assms by (simp add: new_id_after_def)
  then show ?thesis
    using renumber_prefix [OF assms, of "nat N" p] assms by (simp add: renumber_def N)
qed

lemma dom_compact:
  assumes "dom m = {1..N}" and "1 \<le> k" and "k \<le> N"
  shows "dom (compact m k N) = {1..N - 1}"
proof -
  have "\<And>i. (m i \<noteq> None) = (1 \<le> i \<and> i \<le> N)"
    using assms(1) by (auto simp add: dom_def set_eq_iff)
  then show ?thesis
    by (auto simp add: compact_def dom_def)
qed

section \<open>Closed form of a successful \<open>delete\<close>\<close>

lemma len_interval: "0 \<le> n \<Longrightarrow> dom m = {1..n} \<Longrightarrow> len m = n"
  by (simp add: len_def)

lemma dense_counter_iff:
  "(dense s \<and> counter_ok s) = (0 \<le> current_idx s \<and> dom (song_list s) = {1..current_idx s})"
proof
  assume "dense s \<and> counter_ok s"
  then show "0 \<le> current_idx s \<and> dom (song_list s) = {1..current_idx s}"
    by (simp add: dense_def counter_ok_def len_def)
next
  assume r: "0 \<le> current_idx s \<and> dom (song_list s) = {1..current_idx s}"
  then have "len (song_list s) = current_idx s" by (simp add: len_interval)
  then show "dense s \<and> counter_ok s" using r by (simp add: dense_def counter_ok_def)
qed

lemma queue_inv_iff:
  "queue_inv s = (0 \<le> current_idx s \<and> dom (song_list s) = {1..current_idx s}
                  \<and> 0 \<le> played_idx s \<and> played_idx s \<le> current_idx s)"
  unfolding queue_inv_def using dense_counter_iff [of s]
  by (auto simp add: bounds_ok_def counter_ok_def)

lemma compact_one: "compact m k 1 = Map.empty"
  by (auto simp add: compact_def fun_eq_iff)

lemma delete_last_entry:
  assumes "dom m = {1..1::int}"
  shows "m(1 := None) = Map.empty"
proof
  fix i show "(m(1 := None)) i = None"
    using assms by (cases "i = 1") (auto simp add: dom_def set_eq_iff)
qed

lemma is_empty_removed:
  assumes "dom m = {1..N::int}" and "1 \<le> k" and "k \<le> N"
  shows "is_empty (m(k := None)) = (N = 1)"
proof
  assume "is_empty (m(k := None))"
  then have sub: "{1..N} \<subseteq> {k}" using assms(1) by (simp add: is_empty_def)
  have "1 \<in> {1..N}" and "N \<in> {1..N}" using assms(2,3) by simp_all
  then have "1 = k" and "N = k" using sub by blast+
  then show "N = 1" by simp
next
  assume "N = 1"
  then have "k = 1" and "dom m = {1}" using assms by simp_all
  then show "is_empty (m(k := None))" by (simp add: is_empty_def)
qed

lemma delete_song_closed:
  assumes "0 \<le> current_idx s" and "dom (song_list s) = {1..current_idx s}"
    and "1 \<le> k" and "k \<le> current_idx s" and "k \<noteq> played_idx s"
    and "song_list s k = Some e"
  shows "delete_song c k s =
    (Embed [Deleted_Song k e, Remaining_Songs (current_idx s - 1)] No_Footer,
     s\<lparr>song_list := compact (song_list s) k (current_idx s),
       current_idx := current_idx s - 1,
       played_idx := played_after k (if k < played_idx s then played_idx s - 1 else played_idx s)
                       (current_idx s)\<rparr>)"
proof (cases "current_idx s = 1")
  case True
  then have k: "k = 1" using assms by simp
  have em: "(song_list s)(1 := None) = Map.empty"
    using assms(2) True by (simp add: delete_last_entry)
  have p: "played_idx s \<noteq> 1" using assms(5) k by simp
  have ne: "\<not> is_empty (song_list s)" using assms(2) True by (simp add: is_empty_def)
  show ?thesis
    using True k em p ne assms(6)
    by (simp add: delete_song_def Let_def compact_one played_after_def is_empty_def len_def)
next
  case False
  then have N: "2 \<le> current_idx s" using assms by simp
  have ne: "\<not> is_empty (song_list s)" using assms(2) N by (simp add: is_empty_def)
  have ne2: "\<not> is_empty ((song_list s)(k := None))"
    using is_empty_removed [OF assms(2,3,4)] False by simp
  have dc: "dom (compact (song_list s) k (current_idx s)) = {1..current_idx s - 1}"
    by (rule dom_compact [OF assms(2,3,4)])
  have lc: "len (compact (song_list s) k (current_idx s)) = current_idx s - 1"
    using N dc by (simp add: len_interval)
  note rn = renumber_closed [OF assms(2,3,4)]
  show ?thesis
    using ne ne2 assms(3,4,5,6) lc
    by (simp add: delete_song_def Let_def rn)
qed

section \<open>The queue invariant along every run\<close>

lemma queue_inv_initial: "queue_inv (initial_state b)"
  by (simp add: queue_inv_iff initial_state_def)

lemma queue_inv_append:
  assumes "queue_inv s"
  shows "queue_inv (append_song e s)"
proof -
  have "insert (current_idx s + 1) {1..current_idx s} = {1..current_idx s + 1}"
    using assms by (auto simp add: queue_inv_iff)
  then show ?thesis
    using assms by (simp add: queue_inv_iff append_song_def Let_def)
qed

lemma next_song_state:
  "snd (next_song c s) =
     (if is_empty (song_list s) then s
      else if played_idx s = 0 \<and> current_idx s \<ge> 1 then s\<lparr>played_idx := 1\<rparr>
      else if played_idx s < current_idx s then s\<lparr>played_idx := played_idx s + 1\<rparr>
      else s)"
  by (simp add: next_song_def Let_def)

lemma queue_inv_next:
  assumes "queue_inv s"
  shows "queue_inv (snd (next_song c s))"
  using assms by (auto simp add: queue_inv_iff next_song_state)

lemma current_song_state: "snd (current_song c s) = s"
  by (simp add: current_song_def split: sum.splits)

lemma list_song_state: "snd (list_song c s) = s"
  by (simp add: list_song_def Let_def split: sum.splits)

lemma add_state:
  "snd (add c song s) = s \<or> (\<exists>e. snd (add c song s) = append_song e s)"
  by (auto simp add: add_def Let_def split: sum.splits)

lemma process_item_state:
  "snd (snd (process_item item (P, s))) = s
   \<or> (\<exists>e. snd (snd (process_item item (P, s))) = append_song e s)"
  by (auto simp add: process_item_def Let_def)

lemma delete_song_refused:
  assumes "\<not> (1 \<le> k \<and> k \<le> current_idx s \<and> k \<noteq> played_idx s)"
  shows "snd (delete_song c k s) = s"
proof (cases "is_empty (song_list s) \<or> k < 1 \<or> k > current_idx s")
  case True
  then show ?thesis by (auto simp add: delete_song_def)
next
  case False
  then have p: "k = played_idx s" using assms by simp
  show ?thesis
  proof (cases "song_list s k")
    case None
    then show ?thesis using False by (simp add: delete_song_def)
  next
    case (Some e)
    then show ?thesis using False p by (simp add: delete_song_def)
  qed
qed

lemma played_after_bounds:
  assumes "0 \<le> p" and "p \<le> N" and "1 \<le> k" and "k \<le> N" and "k \<noteq> p"
  shows "0 \<le> played_after k (if k < p then p - 1 else p) N"
    and "played_after k (if k < p then p - 1 else p) N \<le> N - 1"
  using assms by (auto simp add: played_after_def)

lemma queue_inv_delete:
  assumes "queue_inv s"
  shows "queue_inv (snd (delete_song c k s))"
proof (cases "1 \<le> k \<and> k \<le> current_idx s \<and> k \<noteq> played_idx s")
  case False
  then show ?thesis using assms by (simp add: delete_song_refused)
next
  case True
  note inv = assms [unfolded queue_inv_iff]
  have "k \<in> dom (song_list s)" using True inv by simp
  then obtain e where e: "song_list s k = Some e" by auto
  have cl: "snd (delete_song c k s) =
     s\<lparr>song_list := compact (song_list s) k (current_idx s),
       current_idx := current_idx s - 1,
       played_idx := played_after k (if k < played_idx s then played_idx s - 1 else played_idx s)
                       (current_idx s)\<rparr>"
    using delete_song_closed [of s k e c] True inv e by simp
  have dc: "dom (compact (song_list s) k (current_idx s)) = {1..current_idx s - 1}"
    using dom_compact [of "song_list s" "current_idx s" k] True inv by simp
  show ?thesis
    unfolding cl queue_inv_iff
    using dc True inv played_after_bounds [of "played_idx s" "current_idx s" k]
    by simp
qed

lemma session_cmds_keep_queue:
  "song_list (snd (start_live_chat c url s)) = song_list s"
  "current_idx (snd (start_live_chat c url s)) = current_idx s"
  "played_idx (snd (start_live_chat c url s)) = played_idx s"
  "song_list (snd (stop_live_chat c s)) = song_list s"
  "current_idx (snd (stop_live_chat c s)) = current_idx s"
  "played_idx (snd (stop_live_chat c s)) = played_idx s"
  "snd (live_status c s) = s"
  "song_list (poller_cleanup ch s) = song_list s"
  "current_idx (poller_cleanup ch s) = current_idx s"
  "played_idx (poller_cleanup ch s) = played_idx s"
  by (simp_all add: start_live_chat_def stop_live_chat_def live_status_def poller_cleanup_def
      split: option.splits)

lemma queue_inv_same_queue:
  assumes "queue_inv s" and "song_list t = song_list s" and "current_idx t = current_idx s"
    and "played_idx t = played_idx s"
  shows "queue_inv t"
  using assms by (simp add: queue_inv_iff)

lemma queue_inv_event:
  assumes "queue_inv s"
  shows "queue_inv (apply_event ev s)"
proof (cases ev)
  case (Start_Live_Chat c url)
  show ?thesis unfolding Start_Live_Chat apply_event.simps
    by (rule queue_inv_same_queue [OF assms]) (rule session_cmds_keep_queue)+
next
  case (Stop_Live_Chat c)
  show ?thesis unfolding Stop_Live_Chat apply_event.simps
    by (rule queue_inv_same_queue [OF assms]) (rule session_cmds_keep_queue)+
next
  case (Live_Status c)
  then show ?thesis using assms by (simp add: session_cmds_keep_queue)
next
  case (Current_Song_Cmd c)
  then show ?thesis using assms by (simp add: current_song_state)
next
  case (Next_Cmd c)
  then show ?thesis using assms by (simp add: queue_inv_next)
next
  case (Add_Cmd c song)
  then show ?thesis using assms add_state [of c song s] by (auto simp add: queue_inv_append)
next
  case (List_Song_Cmd c)
  then show ?thesis using assms by (simp add: list_song_state)
next
  case (Delete_Cmd c k)
  then show ?thesis using assms by (simp add: queue_inv_delete)
next
  case (Chat_Item P item)
  then show ?thesis using assms process_item_state [of item P s]
    by (auto simp add: queue_inv_append)
next
  case (Poller_Exit ch)
  show ?thesis unfolding Poller_Exit apply_event.simps
    by (rule queue_inv_same_queue [OF assms]) (rule session_cmds_keep_queue)+
qed

lemma queue_inv_fold:
  "queue_inv s \<Longrightarrow> queue_inv (fold apply_event evs s)"
  by (induction evs arbitrary: s) (simp_all add: queue_inv_event)

lemma queue_inv_run: "queue_inv (run evs (initial_state b))"
  by (simp add: run_def queue_inv_fold queue_inv_initial)

section \<open>The sample states, evaluated\<close>

lemma upto_one_numeral: "[1..numeral n] = 1 # [2..numeral n]"
  by (simp add: upto.simps [of 1])

lemma two_requests_eq: "two_requests =
   \<lparr>youtube_client = True, active_streams = Map.empty,
    song_list = [1 \<mapsto> (''Song A'', ''Alice''), 2 \<mapsto> (''Song B'', ''Bob'')],
    current_idx = 2, played_idx = 0\<rparr>"
  by (simp add: two_requests_def run_def song_a_def song_b_def process_item_def
      lower_def lower_char_def append_song_def initial_state_def Let_def)

lemma run_snoc: "run (evs @ [ev]) s = apply_event ev (run evs s)"
  by (simp add: run_def)

lemma two_played_eq: "two_played =
   \<lparr>youtube_client = True, active_streams = Map.empty,
    song_list = [1 \<mapsto> (''Song A'', ''Alice''), 2 \<mapsto> (''Song B'', ''Bob'')],
    current_idx = 2, played_idx = 2\<rparr>"
proof -
  have "two_played = apply_event (Next_Cmd here) (apply_event (Next_Cmd here) two_requests)"
    by (simp add: two_played_def two_requests_def run_def)
  then show ?thesis
    by (simp add: two_requests_eq next_song_state is_empty_def)
qed

lemma queue_inv_two_played: "queue_inv two_played"
  unfolding two_played_def by (rule queue_inv_run)

lemma queue_inv_two_requests: "queue_inv two_requests"
  unfolding two_requests_def by (rule queue_inv_run)

section \<open>Invariants on reachable states, sessions, the protected entry\<close>

text \<open>
  Claim C6. \<^verbatim>\<open>played_idx\<close> is at least \<open>0\<close> and at most the number of entries in the
  initial state, in every state reached from it by any sequence of commands and poller
  steps, and after any further operation from such a state.
\<close>

theorem played_idx_within_bounds:
  "bounds_ok (initial_state b)
   \<and> bounds_ok (run evs (initial_state b))
   \<and> bounds_ok (apply_event ev (run evs (initial_state b)))"
proof -
  have "queue_inv (run (evs @ [ev]) (initial_state b))" by (rule queue_inv_run)
  then have "bounds_ok (apply_event ev (run evs (initial_state b)))"
    by (simp add: run_snoc queue_inv_def)
  moreover have "bounds_ok (run evs (initial_state b))"
    using queue_inv_run [of evs b] by (simp add: queue_inv_def)
  moreover have "bounds_ok (initial_state b)"
    using queue_inv_initial [of b] by (simp add: queue_inv_def)
  ultimately show ?thesis by simp
qed

theorem played_idx_within_bounds_witness:
  "played_idx two_played = 2 \<and> len (song_list two_played) = 2 \<and> bounds_ok two_played
   \<and> bounds_ok (apply_event (Delete_Cmd here 1) two_played)"
  using played_idx_within_bounds [of True
      "[Chat_Item {} song_a, Chat_Item {''m1''} song_b, Next_Cmd here, Next_Cmd here]"
      "Delete_Cmd here 1"]
  by (simp add: two_played_def [symmetric]) (simp add: two_played_eq len_def)

text \<open>
  Claim C10. \<^verbatim>\<open>current_idx\<close> equals the number of entries in the initial state and in
  every state reached from it, so the range check of \<^verbatim>\<open>delete\<close> against the counter
  is the check against the size of the queue.
\<close>

theorem counter_equals_size:
  "counter_ok (initial_state b)
   \<and> counter_ok (run evs (initial_state b))
   \<and> (song_id < 1 \<or> song_id > current_idx (run evs (initial_state b)))
     = (song_id < 1 \<or> song_id > len (song_list (run evs (initial_state b))))"
proof -
  have "counter_ok (run evs (initial_state b))"
    using queue_inv_run [of evs b] by (simp add: queue_inv_def)
  moreover have "counter_ok (initial_state b)"
    using queue_inv_initial [of b] by (simp add: queue_inv_def)
  ultimately show ?thesis by (simp add: counter_ok_def)
qed

theorem counter_equals_size_witness:
  "current_idx two_played = 2 \<and> len (song_list two_played) = 2 \<and> counter_ok two_played"
  using counter_equals_size [of True
      "[Chat_Item {} song_a, Chat_Item {''m1''} song_b, Next_Cmd here, Next_Cmd here]" 1]
  by (simp add: two_played_def [symmetric]) (simp add: two_played_eq len_def)

text \<open>
  Claim C9. \<^verbatim>\<open>start_live_chat\<close>, on any URL and in any state, leaves the song entries,
  the counter and \<^verbatim>\<open>played_idx\<close> as they were.
\<close>

theorem start_keeps_queue:
  "song_list (snd (start_live_chat c url s)) = song_list s
   \<and> current_idx (snd (start_live_chat c url s)) = current_idx s
   \<and> played_idx (snd (start_live_chat c url s)) = played_idx s"
  by (simp add: start_live_chat_def split: option.splits)

theorem start_keeps_queue_witness:
  "fst (start_live_chat here ''https://youtu.be/dQw4w9WgXcQ'' two_played)
     = Starting_Monitor ''dQw4w9WgXcQ''
   \<and> song_list (snd (start_live_chat here ''https://youtu.be/dQw4w9WgXcQ'' two_played))
     = song_list two_played
   \<and> current_idx (snd (start_live_chat here ''https://youtu.be/dQw4w9WgXcQ'' two_played)) = 2
   \<and> played_idx (snd (start_live_chat here ''https://youtu.be/dQw4w9WgXcQ'' two_played)) = 2"
  using start_keeps_queue [of here "''https://youtu.be/dQw4w9WgXcQ''" two_played]
  by (simp add: two_played_eq start_live_chat_def extract_youtube_id_def patterns_def
      match_id_at_def id_char_def here_def)

text \<open>
  Claim C4. In a non-empty queue that satisfies the invariants and has
  \<^verbatim>\<open>played_idx >= 1\<close>, deleting the entry numbered \<^verbatim>\<open>played_idx\<close> is refused with
  the notice for the currently playing song, and the state is unchanged.
\<close>

theorem delete_current_is_protected:
  assumes "queue_inv s" and "\<not> is_empty (song_list s)" and "1 \<le> played_idx s"
  shows "delete_song c (played_idx s) s = (Cannot_Delete_Current, s)"
proof -
  note inv = assms(1) [unfolded queue_inv_iff]
  have "played_idx s \<in> dom (song_list s)" using inv assms(3) by simp
  then obtain e where "song_list s (played_idx s) = Some e" by auto
  then show ?thesis using inv assms(2,3) by (simp add: delete_song_def)
qed

theorem delete_current_is_protected_witness:
  "queue_inv two_played \<and> \<not> is_empty (song_list two_played) \<and> 1 \<le> played_idx two_played
   \<and> delete_song here 2 two_played = (Cannot_Delete_Current, two_played)"
proof -
  have a: "queue_inv two_played" by (rule queue_inv_two_played)
  have b: "\<not> is_empty (song_list two_played)" by (simp add: two_played_eq is_empty_def)
  have c: "1 \<le> played_idx two_played" by (simp add: two_played_eq)
  have d: "played_idx two_played = 2" by (simp add: two_played_eq)
  show ?thesis using a b c delete_current_is_protected [OF a b c, of here] by (simp add: d)
qed

section \<open>Deleting and advancing\<close>

lemma deleted_accepted:
  assumes "deleted (fst (delete_song c k s))"
  shows "1 \<le> k \<and> k \<le> current_idx s \<and> k \<noteq> played_idx s"
proof (rule ccontr)
  assume n: "\<not> (1 \<le> k \<and> k \<le> current_idx s \<and> k \<noteq> played_idx s)"
  have "\<not> deleted (fst (delete_song c k s))"
  proof (cases "is_empty (song_list s) \<or> k < 1 \<or> k > current_idx s")
    case True
    then show ?thesis by (auto simp add: delete_song_def deleted_def)
  next
    case False
    then have p: "k = played_idx s" using n by simp
    show ?thesis
    proof (cases "song_list s k")
      case None
      then show ?thesis using False by (simp add: delete_song_def deleted_def)
    next
      case (Some e)
      then show ?thesis using False p by (simp add: delete_song_def deleted_def)
    qed
  qed
  then show False using assms by simp
qed

lemma delete_song_state:
  assumes "dense s" and "counter_ok s" and "deleted (fst (delete_song c k s))"
  shows "snd (delete_song c k s) =
     s\<lparr>song_list := compact (song_list s) k (current_idx s),
       current_idx := current_idx s - 1,
       played_idx := played_after k (if k < played_idx s then played_idx s - 1 else played_idx s)
                       (current_idx s)\<rparr>"
proof -
  have inv: "0 \<le> current_idx s" "dom (song_list s) = {1..current_idx s}"
    using assms(1,2) dense_counter_iff [of s] by simp_all
  note acc = deleted_accepted [OF assms(3)]
  have "k \<in> dom (song_list s)" using acc inv by simp
  then obtain e where e: "song_list s k = Some e" by auto
  show ?thesis
    using delete_song_closed [of s k e c] acc inv e by simp
qed

text \<open>
  Claim C3. In a queue whose keys are \<open>1..N\<close> and whose counter is \<open>N\<close>, a
  \<^verbatim>\<open>delete\<close> of \<open>k\<close> that removes an entry leaves the keys \<open>1..N-1\<close>, and the
  entries read in order are the former ones with the \<open>k\<close>-th taken out.
\<close>

theorem delete_renumbers_densely:
  assumes "dense s" and "counter_ok s" and "deleted (fst (delete_song c k s))"
  shows "dom (song_list (snd (delete_song c k s))) = {1..len (song_list s) - 1}
       \<and> current_idx (snd (delete_song c k s)) = len (song_list s) - 1
       \<and> entries (snd (delete_song c k s))
           = take (nat (k - 1)) (entries s) @ drop (nat k) (entries s)"
proof -
  let ?N = "current_idx s"
  have inv: "0 \<le> ?N" "dom (song_list s) = {1..?N}"
    using assms(1,2) dense_counter_iff [of s] by simp_all
  have N: "len (song_list s) = ?N" using assms(2) by (simp add: counter_ok_def)
  note acc = deleted_accepted [OF assms(3)]
  note st = delete_song_state [OF assms]
  have dc: "dom (compact (song_list s) k ?N) = {1..?N - 1}"
    using dom_compact [of "song_list s" ?N k] acc inv by simp
  have lc: "len (compact (song_list s) k ?N) = ?N - 1"
    using dc acc by (simp add: len_interval)
  have e1: "entries (snd (delete_song c k s)) = map (compact (song_list s) k ?N) [1..?N - 1]"
    by (simp add: st entries_def lc)
  have e2: "entries s = map (song_list s) [1..?N]"
    by (simp add: entries_def N)
  have "map (compact (song_list s) k ?N) [1..?N - 1]
        = take (nat (k - 1)) (map (song_list s) [1..?N]) @ drop (nat k) (map (song_list s) [1..?N])"
    using acc by (auto simp add: list_eq_iff_nth_eq nth_append compact_def min_def)
  then have f3: "entries (snd (delete_song c k s))
           = take (nat (k - 1)) (entries s) @ drop (nat k) (entries s)"
    by (simp only: e1 e2)
  have f1: "dom (song_list (snd (delete_song c k s))) = {1..?N - 1}"
    by (simp add: st dc)
  have f2: "current_idx (snd (delete_song c k s)) = ?N - 1"
    by (simp add: st)
  show ?thesis using f1 f2 f3 by (simp only: N simp_thms)
qed

theorem delete_renumbers_densely_witness:
  "dense two_requests \<and> counter_ok two_requests
   \<and> deleted (fst (delete_song here 1 two_requests))
   \<and> dom (song_list (snd (delete_song here 1 two_requests))) = {1..1}
   \<and> entries (snd (delete_song here 1 two_requests)) = [Some (''Song B'', ''Bob'')]
   \<and> entries two_requests = [Some (''Song A'', ''Alice''), Some (''Song B'', ''Bob'')]"
proof -
  have inv: "dense two_requests" "counter_ok two_requests"
    using queue_inv_two_requests by (simp_all add: queue_inv_def)
  have del: "deleted (fst (delete_song here 1 two_requests))"
    by (simp add: two_requests_eq delete_song_def is_empty_def deleted_def Let_def)
  have l: "len (song_list two_requests) = 2"
    by (simp add: two_requests_eq len_def)
  have en: "entries two_requests = [Some (''Song A'', ''Alice''), Some (''Song B'', ''Bob'')]"
    by (simp add: entries_def l upto_one_numeral) (simp add: two_requests_eq)
  show ?thesis
    using inv del delete_renumbers_densely [OF inv del] by (simp add: l en)
qed

lemma delete_after_played_keeps:
  assumes "queue_inv s" and "deleted (fst (delete_song c k s))" and "played_idx s < k"
  shows "played_idx (snd (delete_song c k s)) = played_idx s"
proof -
  note inv = assms(1) [unfolded queue_inv_iff]
  note acc = deleted_accepted [OF assms(2)]
  have "dense s" "counter_ok s" using assms(1) by (simp_all add: queue_inv_def)
  then show ?thesis
    using delete_song_state [OF _ _ assms(2)] inv acc assms(3)
    by (auto simp add: played_after_def)
qed

lemma delete_before_played_result:
  assumes "queue_inv s" and "deleted (fst (delete_song c k s))" and "k < played_idx s"
  shows "played_idx (snd (delete_song c k s)) =
           (if k + 1 = played_idx s then (if k = 1 then 0 else 1) else played_idx s - 2)"
proof -
  note inv = assms(1) [unfolded queue_inv_iff]
  note acc = deleted_accepted [OF assms(2)]
  have "dense s" "counter_ok s" using assms(1) by (simp_all add: queue_inv_def)
  then show ?thesis
    using delete_song_state [OF _ _ assms(2)] inv acc assms(3)
    by (auto simp add: played_after_def)
qed

lemma delete_before_played_never_by_one:
  assumes "queue_inv s" and "deleted (fst (delete_song c k s))" and "k < played_idx s"
  shows "played_idx (snd (delete_song c k s)) \<noteq> played_idx s - 1"
  using delete_before_played_result [OF assms] deleted_accepted [OF assms(2)] assms(3)
  by (auto split: if_splits)

text \<open>
  Claim C2, on the scenario of the specification: with two entries and the second one
  playing, deleting entry \<open>1\<close> succeeds and leaves the former second entry as the only
  one, but \<^verbatim>\<open>played_idx\<close> becomes \<open>0\<close>, not \<open>2 - 1 = 1\<close>. Line 454 already
  decrements \<^verbatim>\<open>played_idx\<close>; the loop then looks for that decremented value among
  the old numbers (lemma \<open>delete_before_played_result\<close> gives the result in general).
\<close>

theorem delete_before_played_scenario:
  "queue_inv two_played
   \<and> played_idx two_played = 2
   \<and> entries two_played = [Some (''Song A'', ''Alice''), Some (''Song B'', ''Bob'')]
   \<and> deleted (fst (delete_song here 1 two_played))
   \<and> entries (snd (delete_song here 1 two_played)) = [Some (''Song B'', ''Bob'')]
   \<and> played_idx (snd (delete_song here 1 two_played)) = 0"
proof -
  have ev: "delete_song here 1 two_played =
     (Embed [Deleted_Song 1 (''Song A'', ''Alice''), Remaining_Songs 1] No_Footer,
      \<lparr>youtube_client = True, active_streams = Map.empty,
       song_list = [1 \<mapsto> (''Song B'', ''Bob'')], current_idx = 1, played_idx = 0\<rparr>)"
    by (simp add: two_played_eq delete_song_def is_empty_def renumber_def renumber_step_def
        len_def Let_def upto_one_numeral)
  have l: "len (song_list two_played) = 2" by (simp add: two_played_eq len_def)
  have en: "entries two_played = [Some (''Song A'', ''Alice''), Some (''Song B'', ''Bob'')]"
    by (simp add: entries_def l upto_one_numeral) (simp add: two_played_eq)
  have p: "played_idx two_played = 2" by (simp add: two_played_eq)
  show ?thesis
    using en p queue_inv_two_played by (simp add: ev deleted_def entries_def len_def)
qed

lemma next_song_step:
  assumes "0 \<le> current_idx s" and "dom (song_list s) = {1..current_idx s}"
    and "0 \<le> played_idx s" and "played_idx s < current_idx s"
  shows "snd (next_song c s) = s\<lparr>played_idx := played_idx s + 1\<rparr>"
    and "now_playing (fst (next_song c s)) = song_list s (played_idx s + 1)"
proof -
  have ne: "\<not> is_empty (song_list s)" using assms by (simp add: is_empty_def)
  show "snd (next_song c s) = s\<lparr>played_idx := played_idx s + 1\<rparr>"
    using ne assms by (simp add: next_song_state)
  have "played_idx s + 1 \<in> dom (song_list s)" using assms by simp
  then obtain e where e: "song_list s (played_idx s + 1) = Some e" by auto
  have nx: "song_list s (played_idx s + 1 + 1) \<noteq> None" if "played_idx s + 1 < current_idx s"
  proof -
    have "played_idx s + 1 + 1 \<in> dom (song_list s)" using that assms by simp
    then show ?thesis by auto
  qed
  show "now_playing (fst (next_song c s)) = song_list s (played_idx s + 1)"
  proof (cases "played_idx s = 0")
    case True
    then show ?thesis using ne assms e nx
      by (auto simp add: next_song_def Let_def getitem_def now_playing_def split: option.splits)
  next
    case False
    then show ?thesis using ne assms e nx
      by (auto simp add: next_song_def Let_def getitem_def now_playing_def split: option.splits)
  qed
qed

lemma next_song_at_end:
  assumes "1 \<le> current_idx s" and "dom (song_list s) = {1..current_idx s}"
    and "played_idx s = current_idx s"
  shows "next_song c s = (Inr (Embed [Already_Last_Song] No_Footer), s)"
proof -
  have ne: "\<not> is_empty (song_list s)" using assms by (simp add: is_empty_def)
  show ?thesis using ne assms by (simp add: next_song_def)
qed

lemma funpow_next:
  assumes "0 \<le> current_idx s" and "dom (song_list s) = {1..current_idx s}"
    and "played_idx s = 0" and "int n \<le> current_idx s"
  shows "(apply_event (Next_Cmd c) ^^ n) s = s\<lparr>played_idx := int n\<rparr>"
  using assms(4)
proof (induction n)
  case 0
  show ?case using assms(3) by simp
next
  case (Suc n)
  have le: "int n \<le> current_idx s" using Suc.prems by simp
  have "snd (next_song c (s\<lparr>played_idx := int n\<rparr>)) = s\<lparr>played_idx := int n + 1\<rparr>"
    using next_song_step(1) [of "s\<lparr>played_idx := int n\<rparr>" c] assms(1,2) Suc.prems by simp
  then show ?case using Suc.IH [OF le] by (simp add: add.commute)
qed

text \<open>
  Claim C5. From a queue of \<open>N \<ge> 1\<close> entries with nothing played, each of the first
  \<open>N\<close> calls of \<^verbatim>\<open>next\<close> adds one to \<^verbatim>\<open>played_idx\<close> and announces the entry at
  the new position; after them \<^verbatim>\<open>played_idx\<close> is \<open>N\<close>, and one more call answers
  that the last song is reached and changes nothing.
\<close>

theorem advance_through_queue:
  assumes "dense s" and "counter_ok s" and "played_idx s = 0" and "1 \<le> len (song_list s)"
  shows "(\<forall>i < nat (len (song_list s)).
            played_idx ((apply_event (Next_Cmd c) ^^ Suc i) s)
              = played_idx ((apply_event (Next_Cmd c) ^^ i) s) + 1
            \<and> song_list s (int i + 1) \<noteq> None
            \<and> now_playing (fst (next_song c ((apply_event (Next_Cmd c) ^^ i) s)))
              = song_list s (int i + 1))
       \<and> played_idx ((apply_event (Next_Cmd c) ^^ nat (len (song_list s))) s) = len (song_list s)
       \<and> next_song c ((apply_event (Next_Cmd c) ^^ nat (len (song_list s))) s)
           = (Inr (Embed [Already_Last_Song] No_Footer),
              (apply_event (Next_Cmd c) ^^ nat (len (song_list s))) s)"
proof -
  let ?N = "current_idx s"
  have inv: "0 \<le> ?N" "dom (song_list s) = {1..?N}"
    using assms(1,2) dense_counter_iff [of s] by simp_all
  have N: "len (song_list s) = ?N" using assms(2) by (simp add: counter_ok_def)
  have steps: "\<And>n. int n \<le> ?N \<Longrightarrow> (apply_event (Next_Cmd c) ^^ n) s = s\<lparr>played_idx := int n\<rparr>"
    by (rule funpow_next [OF inv assms(3)])
  have a: "played_idx ((apply_event (Next_Cmd c) ^^ Suc i) s)
              = played_idx ((apply_event (Next_Cmd c) ^^ i) s) + 1
            \<and> song_list s (int i + 1) \<noteq> None
            \<and> now_playing (fst (next_song c ((apply_event (Next_Cmd c) ^^ i) s)))
              = song_list s (int i + 1)" if "i < nat ?N" for i
  proof -
    have i: "int i < ?N" "int (Suc i) \<le> ?N" "int i \<le> ?N" using that by simp_all
    have "int i + 1 \<in> dom (song_list s)" using i inv by simp
    then have "song_list s (int i + 1) \<noteq> None" by auto
    moreover have "now_playing (fst (next_song c (s\<lparr>played_idx := int i\<rparr>))) = song_list s (int i + 1)"
      using next_song_step(2) [of "s\<lparr>played_idx := int i\<rparr>" c] inv i by simp
    ultimately show ?thesis
      by (simp only: steps [OF i(2)] steps [OF i(3)]) simp
  qed
  have b: "(apply_event (Next_Cmd c) ^^ nat ?N) s = s\<lparr>played_idx := ?N\<rparr>"
    using steps [of "nat ?N"] inv by simp
  have d: "next_song c (s\<lparr>played_idx := ?N\<rparr>)
           = (Inr (Embed [Already_Last_Song] No_Footer), s\<lparr>played_idx := ?N\<rparr>)"
    using next_song_at_end [of "s\<lparr>played_idx := ?N\<rparr>" c] inv assms(4) N by simp
  show ?thesis
    unfolding N using a b d by simp
qed

theorem advance_through_queue_witness:
  "dense two_requests \<and> counter_ok two_requests \<and> played_idx two_requests = 0
   \<and> len (song_list two_requests) = 2
   \<and> now_playing (fst (next_song here two_requests)) = Some (''Song A'', ''Alice'')
   \<and> now_playing (fst (next_song here (apply_event (Next_Cmd here) two_requests)))
       = Some (''Song B'', ''Bob'')
   \<and> played_idx ((apply_event (Next_Cmd here) ^^ 2) two_requests) = 2
   \<and> fst (next_song here ((apply_event (Next_Cmd here) ^^ 2) two_requests))
       = Inr (Embed [Already_Last_Song] No_Footer)"
proof -
  have inv: "dense two_requests" "counter_ok two_requests"
    using queue_inv_two_requests by (simp_all add: queue_inv_def)
  have p: "played_idx two_requests = 0" by (simp add: two_requests_eq)
  have l: "len (song_list two_requests) = 2" by (simp add: two_requests_eq len_def)
  have l1: "1 \<le> len (song_list two_requests)" using l by simp
  have s1: "song_list two_requests 1 = Some (''Song A'', ''Alice'')"
    and s2: "song_list two_requests 2 = Some (''Song B'', ''Bob'')"
    by (simp_all add: two_requests_eq)
  note th = advance_through_queue [OF inv p l1, of here, unfolded l]
  have a0: "now_playing (fst (next_song here two_requests)) = Some (''Song A'', ''Alice'')"
    using th [THEN conjunct1, rule_format, of 0] s1 by simp
  have a1: "now_playing (fst (next_song here (apply_event (Next_Cmd here) two_requests)))
       = Some (''Song B'', ''Bob'')"
    using th [THEN conjunct1, rule_format, of 1] s2 by simp
  have e: "nat 2 = 2" by simp
  show ?thesis
    using inv p l a0 a1 th [THEN conjunct2] by (simp add: e)
qed

section \<open>Appending, forwarding and scopes\<close>

lemma append_song_fields:
  "current_idx (append_song e s) = current_idx s + 1"
  "song_list (append_song e s) = (song_list s)(current_idx s + 1 \<mapsto> e)"
  "played_idx (append_song e s) = played_idx s"
  "active_streams (append_song e s) = active_streams s"
  "youtube_client (append_song e s) = youtube_client s"
  by (simp_all add: append_song_def Let_def)




lemma add_appends:
  assumes "channel c \<in> dom (active_streams s)"
    and "py_split CHR ''-'' song = title # requester # rest"
  shows "snd (add c song s) = append_song (''(Trakteer) - '' @ title, requester) s"
  using assms by (simp add: add_def index_def Let_def)

lemma monitoring_eq: "monitoring =
   \<lparr>youtube_client = True, active_streams = [1 \<mapsto> ''dQw4w9WgXcQ''],
    song_list = Map.empty, current_idx = 0, played_idx = 0\<rparr>"
  by (simp add: monitoring_def start_live_chat_def extract_youtube_id_def patterns_def
      match_id_at_def id_char_def here_def initial_state_def)

text \<open>
  Claim C8 as stated fails twice. \<^verbatim>\<open>!reqSong\<close> is forwarded, but stored as \<^verbatim>\<open>ong\<close>
  and not as the remainder \<^verbatim>\<open>Song\<close> after the marker. And \<^verbatim>\<open>!req Song A\<close>, replayed
  with its identifier already processed, starts with the marker and is not forwarded:
  the step returns nothing sent and the set and the state as they were.
\<close>

theorem forwarding_counterexample:
  "\<not> spec_forwarding glued {} (initial_state True)
   \<and> spec_forwarded glued {} (initial_state True)
   \<and> \<not> spec_stored glued {} (initial_state True)
   \<and> song_list (snd (snd (process_item glued ({}, initial_state True)))) 1 = Some (''ong'', ''Al'')
   \<and> spec_strip_marker (display_message glued) = ''Song''
   \<and> \<not> spec_forwarding song_a {''m1''} (initial_state True)
   \<and> \<not> spec_forwarded song_a {''m1''} (initial_state True)
   \<and> startswith (lower (display_message song_a)) request_marker
   \<and> process_item song_a ({''m1''}, initial_state True) = (None, {''m1''}, initial_state True)"
  by (simp add: spec_forwarding_def spec_forwarded_def spec_stored_def process_item_def
      glued_def song_a_def lower_def lower_char_def append_song_def initial_state_def Let_def
      request_marker_def spec_strip_marker_def)

text \<open>
  Claim C8, amended. A chat item whose identifier was already processed is skipped:
  nothing is sent and nothing changes. An item whose identifier has not been processed
  yet is recorded as processed, and is forwarded if and only if its lower-cased text
  starts with \<^verbatim>\<open>!req\<close>; the entry then appended, under the counter plus one, has as
  title the text without its first five characters (the marker and the character after
  it) and as requester the author name; otherwise the state is unchanged.
\<close>

theorem chat_request_forwarding:
  "(if message_id item \<in> processed
    then process_item item (processed, s) = (None, processed, s)
    else (fst (process_item item (processed, s)) \<noteq> None)
           = startswith (lower (display_message item)) ''!req''
       \<and> fst (snd (process_item item (processed, s))) = insert (message_id item) processed
       \<and> (if startswith (lower (display_message item)) ''!req''
          then snd (snd (process_item item (processed, s)))
                 = append_song (drop 5 (display_message item), display_name item) s
               \<and> current_idx (snd (snd (process_item item (processed, s)))) = current_idx s + 1
               \<and> song_list (snd (snd (process_item item (processed, s)))) (current_idx s + 1)
                 = Some (drop 5 (display_message item), display_name item)
          else snd (snd (process_item item (processed, s))) = s))"
  by (simp add: process_item_def Let_def append_song_fields)

theorem chat_request_forwarding_witness:
  "message_id song_a \<in> {''m1''}
   \<and> process_item song_a ({''m1''}, initial_state True) = (None, {''m1''}, initial_state True)
   \<and> message_id song_b \<notin> {''m1''}
   \<and> startswith (lower (display_message song_b)) ''!req''
   \<and> fst (process_item song_b ({''m1''}, initial_state True)) \<noteq> None
   \<and> fst (snd (process_item song_b ({''m1''}, initial_state True))) = {''m2'', ''m1''}
   \<and> current_idx (snd (snd (process_item song_b ({''m1''}, initial_state True)))) = 1
   \<and> song_list (snd (snd (process_item song_b ({''m1''}, initial_state True)))) 1
       = Some (''Song B'', ''Bob'')"
proof -
  have a1: "message_id song_a \<in> {''m1''}" by (simp add: song_a_def)
  have a: "message_id song_b \<notin> {''m1''}" by (simp add: song_b_def)
  have b: "startswith (lower (display_message song_b)) ''!req''"
    by (simp add: song_b_def lower_def lower_char_def)
  have c: "current_idx (initial_state True) = 0" by (simp add: initial_state_def)
  have d: "drop 5 (display_message song_b) = ''Song B''" "display_name song_b = ''Bob''"
    "message_id song_b = ''m2''"
    by (simp_all add: song_b_def)
  show ?thesis
    using a1 a b
      chat_request_forwarding [of song_a "{''m1''}" "initial_state True"]
      chat_request_forwarding [of song_b "{''m1''}" "initial_state True"]
    by (simp add: c d append_song_fields)
qed

text \<open>
  Claim C1 as stated fails: with a session running in channel \<open>1\<close>, an \<^verbatim>\<open>add\<close>
  issued there changes what \<^verbatim>\<open>current_song\<close> answers in channel \<open>2\<close>.
\<close>

theorem queue_isolation_counterexample:
  "channel here \<noteq> channel there \<and> \<not> spec_isolated here there ''Miniatur-Ryoda'' monitoring"
  by (simp add: spec_isolated_def monitoring_eq add_def index_def append_song_def Let_def
      current_song_def is_empty_def getitem_def here_def there_def)

text \<open>
  Claim C1, amended. There is one queue for all scopes. \<^verbatim>\<open>current_song\<close> and
  \<^verbatim>\<open>list_song\<close> answer the same in every scope. An append never changes
  \<^verbatim>\<open>played_idx\<close>. An \<^verbatim>\<open>add\<close> issued in a scope with a running session, with a
  title and a requester in its argument, stores the entry under the counter plus one in
  the one dictionary and increments the one counter, and so does the poller for a
  request item it has not processed yet; what either leaves behind is what every other
  scope then reads.
\<close>

theorem queue_shared_by_scopes:
  "current_song c2 s = current_song c1 s
   \<and> list_song c2 s = list_song c1 s
   \<and> played_idx (snd (add c1 song s)) = played_idx s
   \<and> played_idx (snd (snd (process_item item (processed, s)))) = played_idx s
   \<and> (channel c1 \<in> dom (active_streams s)
        \<and> py_split CHR ''-'' song = title # requester # rest \<longrightarrow>
      song_list (snd (add c1 song s))
        = (song_list s)(current_idx s + 1 \<mapsto> (''(Trakteer) - '' @ title, requester))
      \<and> current_idx (snd (add c1 song s)) = current_idx s + 1
      \<and> current_song c2 (snd (add c1 song s)) = current_song c1 (snd (add c1 song s))
      \<and> list_song c2 (snd (add c1 song s)) = list_song c1 (snd (add c1 song s)))
   \<and> (message_id item \<notin> processed
        \<and> startswith (lower (display_message item)) ''!req'' \<longrightarrow>
      song_list (snd (snd (process_item item (processed, s))))
        = (song_list s)(current_idx s + 1 \<mapsto> (drop 5 (display_message item), display_name item))
      \<and> current_idx (snd (snd (process_item item (processed, s)))) = current_idx s + 1
      \<and> current_song c2 (snd (snd (process_item item (processed, s))))
          = current_song c1 (snd (snd (process_item item (processed, s))))
      \<and> list_song c2 (snd (snd (process_item item (processed, s))))
          = list_song c1 (snd (snd (process_item item (processed, s)))))"
proof -
  have obs: "current_song c2 t = current_song c1 t \<and> list_song c2 t = list_song c1 t" for t
    by (simp add: current_song_def list_song_def)
  have pl: "played_idx (snd (add c1 song s)) = played_idx s
            \<and> played_idx (snd (snd (process_item item (processed, s)))) = played_idx s"
    by (simp add: add_def process_item_def Let_def append_song_fields split: sum.splits)
  have ad: "song_list (snd (add c1 song s))
        = (song_list s)(current_idx s + 1 \<mapsto> (''(Trakteer) - '' @ title, requester))
      \<and> current_idx (snd (add c1 song s)) = current_idx s + 1"
    if "channel c1 \<in> dom (active_streams s)"
      and "py_split CHR ''-'' song = title # requester # rest"
    using add_appends [OF that] by (simp add: append_song_fields)
  have po: "song_list (snd (snd (process_item item (processed, s))))
        = (song_list s)(current_idx s + 1 \<mapsto> (drop 5 (display_message item), display_name item))
      \<and> current_idx (snd (snd (process_item item (processed, s)))) = current_idx s + 1"
    if "message_id item \<notin> processed"
      and "startswith (lower (display_message item)) ''!req''"
    using that by (simp add: process_item_def Let_def append_song_fields)
  show ?thesis
    using obs pl ad po by blast
qed

theorem queue_shared_by_scopes_witness:
  "channel here \<in> dom (active_streams monitoring)
   \<and> py_split CHR ''-'' ''Miniatur-Ryoda'' = [''Miniatur'', ''Ryoda'']
   \<and> song_list (snd (add here ''Miniatur-Ryoda'' monitoring)) 1
       = Some (''(Trakteer) - Miniatur'', ''Ryoda'')
   \<and> current_idx (snd (add here ''Miniatur-Ryoda'' monitoring)) = 1
   \<and> fst (current_song there (snd (add here ''Miniatur-Ryoda'' monitoring)))
       = Inr (Embed [Not_Played_Yet (''(Trakteer) - Miniatur'', ''Ryoda'')] No_Footer)
   \<and> message_id song_a \<notin> {}
   \<and> startswith (lower (display_message song_a)) ''!req''
   \<and> song_list (snd (snd (process_item song_a ({}, monitoring)))) 1 = Some (''Song A'', ''Alice'')
   \<and> current_idx (snd (snd (process_item song_a ({}, monitoring)))) = 1"
proof -
  have h1: "channel here \<in> dom (active_streams monitoring)"
    by (simp add: monitoring_eq here_def)
  have h2: "py_split CHR ''-'' ''Miniatur-Ryoda'' = ''Miniatur'' # ''Ryoda'' # []"
    by simp
  have h3: "message_id song_a \<notin> {}" by simp
  have h4: "startswith (lower (display_message song_a)) ''!req''"
    by (simp add: song_a_def lower_def lower_char_def)
  have c: "current_idx monitoring = 0" "song_list monitoring = Map.empty"
    by (simp_all add: monitoring_eq)
  have d: "drop 5 (display_message song_a) = ''Song A''" "display_name song_a = ''Alice''"
    by (simp_all add: song_a_def)
  note th = queue_shared_by_scopes [of there monitoring here "''Miniatur-Ryoda''" song_a "{}"
      "''Miniatur''" "''Ryoda''" "[]"]
  have ad: "song_list (snd (add here ''Miniatur-Ryoda'' monitoring))
        = (song_list monitoring)(current_idx monitoring + 1 \<mapsto> (''(Trakteer) - '' @ ''Miniatur'', ''Ryoda''))
      \<and> current_idx (snd (add here ''Miniatur-Ryoda'' monitoring)) = current_idx monitoring + 1
      \<and> current_song there (snd (add here ''Miniatur-Ryoda'' monitoring))
          = current_song here (snd (add here ''Miniatur-Ryoda'' monitoring))
      \<and> list_song there (snd (add here ''Miniatur-Ryoda'' monitoring))
          = list_song here (snd (add here ''Miniatur-Ryoda'' monitoring))"
    using th h1 h2 by blast
  have po: "song_list (snd (snd (process_item song_a ({}, monitoring))))
        = (song_list monitoring)(current_idx monitoring + 1 \<mapsto>
             (drop 5 (display_message song_a), display_name song_a))
      \<and> current_idx (snd (snd (process_item song_a ({}, monitoring)))) = current_idx monitoring + 1"
    using th h3 h4 by blast
  have cs: "fst (current_song here (snd (add here ''Miniatur-Ryoda'' monitoring)))
     = Inr (Embed [Not_Played_Yet (''(Trakteer) - Miniatur'', ''Ryoda'')] No_Footer)"
    by (simp add: monitoring_eq add_def index_def append_song_def Let_def
      current_song_def is_empty_def getitem_def here_def)
  show ?thesis
    using h1 h2 h3 h4 ad po cs by (simp add: c d)
qed

end
